theory Spec2Isabelle
  imports Complex_Main "HOL-Library.AList"
begin

section \<open>Values, functions and the emitter's state\<close>

text \<open>
  JavaScript numbers, as far as the setter of \<open>maxListeners\<close> tells them apart: \<open>NaN\<close>,
  the two infinities and the finite numbers (every finite double is a rational; \<open>-0\<close> and
  \<open>0\<close> are one value for \<open><\<close> and \<open>===\<close>, the only operators applied to them).
\<close>

datatype jsnum = NaN | PosInf | NegInf | Fin rat

text \<open>
  Run-time values. A function value is identified by its tag: a function written by the
  user of the library (\<open>User i body\<close>, with the calls its body makes on the emitter), or
  the arrow function \<open>onceListener\<close> that \<open>once\<close> allocates (\<open>OnceListener c names
  listener\<close>: \<open>c\<close> numbers the allocation, the other two are the variables it closes over).
\<close>

datatype val = VUndefined | VNull | VBool bool | VNum jsnum | VStr string | VFun fn
and fn = User nat "cmd list" | OnceListener nat string val
and cmd =
    AddListener string val bool
  | RemoveListener string val
  | Emit string "val list"
  | Once string val bool
  | RemoveAllListeners string
  | SetMaxListeners val
  | ThrowError string

datatype error = TypeError string | RangeError string | Thrown string

text \<open>
  One application of a function: the function, its arguments, and the applications made
  while it ran.
\<close>

datatype call = Call val "val list" "call list"

text \<open>The two values interpolated into the text of the leak warning.\<close>

datatype warning = LeakWarning nat string

text \<open>
  \<open>eventMap\<close> is the private \<open>Map<string, Function[]>\<close>, in insertion order;
  \<open>maxListeners\<close> the private \<open>_maxListeners\<close> (what the getter returns).
  \<open>warnings\<close> is what \<open>console.warn\<close> has received and \<open>calls\<close> the applications of
  functions made so far at the current nesting level; \<open>closures\<close> counts the arrow
  functions allocated by \<open>once\<close>. \<open>globalName\<close> is the host's global \<open>name\<close>, which
  the warning text of \<open>addListener\<close> reads: the class binds no \<open>name\<close> (the loop variable
  is \<open>eventName\<close>), so the identifier is the one the DOM declares, \<open>window.name\<close>, a
  string. A host that defines no such global is not modelled.
\<close>

record state =
  eventMap :: "(string \<times> val list) list"
  maxListeners :: jsnum
  warnings :: "warning list"
  calls :: "call list"
  closures :: nat
  globalName :: string

definition DEFAULT_MAX_LISTENERS :: jsnum where
  "DEFAULT_MAX_LISTENERS = Fin 10"

definition new_EventEmitter :: "string \<Rightarrow> state" where
  "new_EventEmitter g =
     \<lparr>eventMap = [], maxListeners = DEFAULT_MAX_LISTENERS, warnings = [], calls = [],
      closures = 0, globalName = g\<rparr>"

subsection \<open>The operations of \<open>Map\<close> that the class uses\<close>

definition map_has :: "(string \<times> val list) list \<Rightarrow> string \<Rightarrow> bool" where
  "map_has m k = (map_of m k \<noteq> None)"

definition map_get :: "(string \<times> val list) list \<Rightarrow> string \<Rightarrow> val list option" where
  "map_get m k = map_of m k"

text \<open>\<open>set\<close> keeps the position of a key that is present and appends a new one.\<close>

definition map_set ::
  "string \<Rightarrow> val list \<Rightarrow> (string \<times> val list) list \<Rightarrow> (string \<times> val list) list" where
  "map_set k v m = AList.update k v m"

definition map_delete ::
  "string \<Rightarrow> (string \<times> val list) list \<Rightarrow> (string \<times> val list) list" where
  "map_delete k m = AList.delete k m"


subsection \<open>\<open>String.prototype.split(' ')\<close>\<close>

text \<open>No trimming and no filtering: \<open>n\<close> separators give \<open>n + 1\<close> pieces, empty ones included.\<close>

fun js_split :: "string \<Rightarrow> string list" where
  "js_split [] = [[]]"
| "js_split (c # cs) =
     (if c = CHR '' '' then [] # js_split cs
      else (case js_split cs of w # ws \<Rightarrow> (c # w) # ws | [] \<Rightarrow> [[c]]))"

section \<open>The methods that call no listener\<close>

definition is_function :: "val \<Rightarrow> bool" where
  "is_function v = (case v of VFun f \<Rightarrow> True | _ \<Rightarrow> False)"

definition removeAllListeners :: "string \<Rightarrow> state \<Rightarrow> state" where
  "removeAllListeners eventName s = s\<lparr>eventMap := map_delete eventName (eventMap s)\<rparr>"


text \<open>\<open>Object.assign([], undefined)\<close> is the empty array; otherwise a copy of the stored one.\<close>

definition listeners :: "state \<Rightarrow> string \<Rightarrow> val list" where
  "listeners s eventName = (case map_get (eventMap s) eventName of None \<Rightarrow> [] | Some ls \<Rightarrow> ls)"

definition listenerCount :: "state \<Rightarrow> string \<Rightarrow> nat" where
  "listenerCount s eventName =
     (case map_get (eventMap s) eventName of None \<Rightarrow> 0 | Some ls \<Rightarrow> length ls)"

definition console_warn :: "warning \<Rightarrow> state \<Rightarrow> state" where
  "console_warn w s = s\<lparr>warnings := warnings s @ [w]\<rparr>"

text \<open>
  One turn of the loop of \<open>addListener\<close>. The array is updated in place (\<open>unshift\<close>,
  \<open>push\<close>), which keeps the key's position in the map; after the \<open>has\<close>/\<open>set\<close> above
  it, \<open>get\<close> cannot return \<open>undefined\<close>.
\<close>

definition addListener_step :: "string \<Rightarrow> val \<Rightarrow> bool \<Rightarrow> state \<Rightarrow> state" where
  "addListener_step eventName listener prepend s =
     (let s1 = (if Fin (of_nat (listenerCount s eventName)) = maxListeners s
                then console_warn (LeakWarning (listenerCount s (globalName s)) (globalName s)) s
                else s);
          s2 = (if \<not> map_has (eventMap s1) eventName
                then s1\<lparr>eventMap := map_set eventName [] (eventMap s1)\<rparr>
                else s1)
      in case map_get (eventMap s2) eventName of
           None \<Rightarrow> s2
         | Some arr \<Rightarrow>
             s2\<lparr>eventMap := map_set eventName
                   (if prepend then listener # arr else arr @ [listener]) (eventMap s2)\<rparr>)"

fun addListener_loop :: "string list \<Rightarrow> val \<Rightarrow> bool \<Rightarrow> state \<Rightarrow> state" where
  "addListener_loop [] listener prepend s = s"
| "addListener_loop (eventName # rest) listener prepend s =
     addListener_loop rest listener prepend (addListener_step eventName listener prepend s)"

definition addListener :: "string \<Rightarrow> val \<Rightarrow> bool \<Rightarrow> state \<Rightarrow> (error + unit) \<times> state" where
  "addListener names listener prepend s =
     (if \<not> is_function listener then (Inl (TypeError ''listener must be a function''), s)
      else (Inr (), addListener_loop (js_split names) listener prepend s))"

text \<open>
  \<open>once\<close> allocates the arrow function \<open>onceListener\<close> and registers it; it does not
  look at \<open>listener\<close>.
\<close>

definition once :: "string \<Rightarrow> val \<Rightarrow> bool \<Rightarrow> state \<Rightarrow> (error + unit) \<times> state" where
  "once names listener prepend s =
     (let onceListener = VFun (OnceListener (closures s) names listener)
      in addListener names onceListener prepend (s\<lparr>closures := Suc (closures s)\<rparr>))"

definition prependListener :: "string \<Rightarrow> val \<Rightarrow> state \<Rightarrow> (error + unit) \<times> state" where
  "prependListener names listener s = addListener names listener True s"

definition prependOnce :: "string \<Rightarrow> val \<Rightarrow> state \<Rightarrow> (error + unit) \<times> state" where
  "prependOnce names listener s = once names listener True s"

text \<open>\<open>isNaN(n)\<close>, \<open>n < 0\<close> and \<open>n === 0\<close> on numbers.\<close>

fun isNaN :: "jsnum \<Rightarrow> bool" where
  "isNaN NaN = True"
| "isNaN _ = False"

fun lt_zero :: "jsnum \<Rightarrow> bool" where
  "lt_zero NegInf = True"
| "lt_zero (Fin q) = (q < 0)"
| "lt_zero _ = False"

fun eq_zero :: "jsnum \<Rightarrow> bool" where
  "eq_zero (Fin q) = (q = 0)"
| "eq_zero _ = False"

text \<open>The setter of \<open>maxListeners\<close>; any value can reach it at run time.\<close>

definition set_maxListeners :: "val \<Rightarrow> state \<Rightarrow> (error + unit) \<times> state" where
  "set_maxListeners n s =
     (case n of
        VNum x \<Rightarrow>
          (if isNaN x then (Inl (TypeError ''maxListeners must be a number.''), s)
           else if lt_zero x
             then (Inl (RangeError ''maxListeners cannot be set to a negative value.''), s)
           else if eq_zero x then (Inr (), s\<lparr>maxListeners := PosInf\<rparr>)
           else (Inr (), s\<lparr>maxListeners := x\<rparr>))
      | _ \<Rightarrow> (Inl (TypeError ''maxListeners must be a number.''), s))"

section \<open>The methods that call listeners\<close>

text \<open>
  \<open>currentListeners\<close> is the array that \<open>listeners\<close> allocates and \<open>newListeners\<close>
  the one that \<open>filter\<close> allocates: two objects, so \<open>!==\<close>, which compares
  references, is true whatever the two arrays contain.
\<close>

definition refs_differ :: "val list \<Rightarrow> val list \<Rightarrow> bool" where
  "refs_differ currentListeners newListeners = True"

text \<open>
  The methods that call listeners, and the listeners themselves. A listener may call back
  into the emitter, so an emission need not end: the first argument bounds the depth to
  which function applications nest, and \<open>None\<close> says that the bound was reached.
  Otherwise the result is the value returned or the error thrown, with the state reached.

  \<open>apply_fn\<close> is \<open>Reflect.apply(listener, this, args)\<close> (and the plain call
  \<open>listener(...args)\<close> inside \<open>onceListener\<close>); it records the application in
  \<open>calls\<close>, with the applications nested in it. \<open>run_fn\<close> is the body of the function
  applied, \<open>run_body\<close> the calls that a user's function makes on the emitter.
  \<open>forEach\<close> is \<open>listeners.forEach(...)\<close> of \<open>emit\<close>, over the copy taken when
  \<open>emit\<close> started.
\<close>

function (sequential)
  apply_fn :: "nat \<Rightarrow> val \<Rightarrow> val list \<Rightarrow> state \<Rightarrow> ((error + unit) \<times> state) option" and
  run_fn :: "nat \<Rightarrow> fn \<Rightarrow> val list \<Rightarrow> state \<Rightarrow> ((error + unit) \<times> state) option" and
  run_body :: "nat \<Rightarrow> cmd list \<Rightarrow> state \<Rightarrow> ((error + unit) \<times> state) option" and
  removeListener :: "nat \<Rightarrow> string \<Rightarrow> val \<Rightarrow> state \<Rightarrow> ((error + unit) \<times> state) option" and
  removeListener_loop ::
    "nat \<Rightarrow> string list \<Rightarrow> val \<Rightarrow> state \<Rightarrow> ((error + unit) \<times> state) option" and
  emit :: "nat \<Rightarrow> string \<Rightarrow> val list \<Rightarrow> state \<Rightarrow> ((error + bool) \<times> state) option" and
  forEach :: "nat \<Rightarrow> val list \<Rightarrow> val list \<Rightarrow> state \<Rightarrow> ((error + unit) \<times> state) option"
where
  "apply_fn 0 f args s = None"
| "apply_fn (Suc k) f args s =
     (case f of
        VFun g \<Rightarrow>
          (case run_fn k g args (s\<lparr>calls := []\<rparr>) of
             None \<Rightarrow> None
           | Some (r, s') \<Rightarrow> Some (r, s'\<lparr>calls := calls s @ [Call f args (calls s')]\<rparr>))
      | _ \<Rightarrow> Some (Inl (TypeError ''listener is not a function''), s))"
| "run_fn k (User i body) args s = run_body k body s"
| "run_fn k (OnceListener c names listener) args s =
     (case apply_fn k listener args s of
        None \<Rightarrow> None
      | Some (Inl e, s') \<Rightarrow> Some (Inl e, s')
      | Some (Inr u, s') \<Rightarrow> removeListener k names (VFun (OnceListener c names listener)) s')"
| "run_body k [] s = Some (Inr (), s)"
| "run_body k (c # cs) s =
     (case (case c of
              AddListener names l p \<Rightarrow> Some (addListener names l p s)
            | RemoveListener names l \<Rightarrow> removeListener k names l s
            | Emit name args \<Rightarrow>
                (case emit k name args s of
                   None \<Rightarrow> None
                 | Some (Inl e, s') \<Rightarrow> Some (Inl e, s')
                 | Some (Inr b, s') \<Rightarrow> Some (Inr (), s'))
            | Once names l p \<Rightarrow> Some (once names l p s)
            | RemoveAllListeners name \<Rightarrow> Some (Inr (), removeAllListeners name s)
            | SetMaxListeners n \<Rightarrow> Some (set_maxListeners n s)
            | ThrowError msg \<Rightarrow> Some (Inl (Thrown msg), s)) of
        None \<Rightarrow> None
      | Some (Inl e, s') \<Rightarrow> Some (Inl e, s')
      | Some (Inr u, s') \<Rightarrow> run_body k cs s')"
| "removeListener k names listener s =
     (if \<not> is_function listener then Some (Inl (TypeError ''listener must be a function''), s)
      else removeListener_loop k (js_split names) listener s)"
| "removeListener_loop k [] listener s = Some (Inr (), s)"
| "removeListener_loop k (eventName # rest) listener s =
     (let currentListeners = listeners s eventName;
          newListeners = filter (\<lambda>l. l \<noteq> listener) currentListeners
      in if length newListeners = 0 then
           removeListener_loop k rest listener (removeAllListeners eventName s)
         else if refs_differ currentListeners newListeners then
           (case emit k ''removeListener'' [VStr eventName, listener]
                   (s\<lparr>eventMap := map_set eventName newListeners (eventMap s)\<rparr>) of
              None \<Rightarrow> None
            | Some (Inl e, s') \<Rightarrow> Some (Inl e, s')
            | Some (Inr b, s') \<Rightarrow> removeListener_loop k rest listener s')
         else removeListener_loop k rest listener s)"
| "emit k eventName args s =
     (let ls = listeners s eventName
      in if length ls = 0 then Some (Inr False, s)
         else (case forEach k ls args s of
                 None \<Rightarrow> None
               | Some (Inl e, s') \<Rightarrow> Some (Inl e, s')
               | Some (Inr u, s') \<Rightarrow> Some (Inr True, s')))"
| "forEach k [] args s = Some (Inr (), s)"
| "forEach k (listener # rest) args s =
     (case apply_fn k listener args s of
        None \<Rightarrow> None
      | Some (Inl e, s') \<Rightarrow> Some (Inl e, s')
      | Some (Inr u, s') \<Rightarrow> forEach k rest args s')"
  by pat_completeness auto
termination
  by (relation "inv_image (less_than <*lex*> less_than <*lex*> less_than)
        (\<lambda>x. case x of
            Inl (Inl (k, f, args, s)) \<Rightarrow> (k, 0::nat, 0::nat)
          | Inl (Inr (Inl (k, g, args, s))) \<Rightarrow> (k, 6, 0)
          | Inl (Inr (Inr (k, body, s))) \<Rightarrow> (k, 5, length body)
          | Inr (Inl (Inl (k, names, l, s))) \<Rightarrow> (k, 4, 0)
          | Inr (Inl (Inr (k, ns, l, s))) \<Rightarrow> (k, 3, length ns)
          | Inr (Inr (Inl (k, n, args, s))) \<Rightarrow> (k, 2, 0)
          | Inr (Inr (Inr (k, ls, args, s))) \<Rightarrow> (k, 1, length ls))") auto

section \<open>Notions used by the properties\<close>

text \<open>
  A function that returns without calling the emitter and without throwing: a user's
  function with an empty body. What else such a function computes is no part of the
  emitter's state.
\<close>

fun quiet :: "val \<Rightarrow> bool" where
  "quiet (VFun (User i body)) = (body = [])"
| "quiet _ = False"

text \<open>The function and the arguments of a recorded application.\<close>

fun call_fn :: "call \<Rightarrow> val" where
  "call_fn (Call f args sub) = f"

fun call_args :: "call \<Rightarrow> val list" where
  "call_args (Call f args sub) = args"

text \<open>No entry of the map holds an empty array.\<close>

definition registry_inv :: "state \<Rightarrow> bool" where
  "registry_inv s = list_all (\<lambda>(k, ls). ls \<noteq> []) (eventMap s)"

text \<open>Every application of a function, at depth bound \<open>k\<close>, keeps \<open>registry_inv\<close>.\<close>

definition keeps_inv :: "nat \<Rightarrow> bool" where
  "keeps_inv k =
     (\<forall>f args s r s'. registry_inv s \<longrightarrow> apply_fn k f args s = Some (r, s') \<longrightarrow> registry_inv s')"

subsection \<open>Example functions and states\<close>

text \<open>
  Three quiet functions; a function that, when called, registers \<open>ex_g\<close> for \<open>x\<close> and
  removes \<open>ex_h\<close> from it; and emitters built from a new one by calls of \<open>addListener\<close>
  and \<open>once\<close>.
\<close>

definition ex_f :: val where "ex_f = VFun (User 1 [])"
definition ex_g :: val where "ex_g = VFun (User 2 [])"
definition ex_h :: val where "ex_h = VFun (User 3 [])"

definition ex_one :: state where
  "ex_one = snd (addListener ''x'' ex_f False (new_EventEmitter []))"

definition ex_two :: state where
  "ex_two = snd (addListener ''x'' ex_g False ex_one)"



definition ex_meta :: state where
  "ex_meta = snd (addListener ''removeListener'' ex_h False ex_one)"






section \<open>Auxiliary facts\<close>





lemma addListener_step_eq:
  "addListener_step n l p s =
     s\<lparr>eventMap := map_set n (if p then l # listeners s n else listeners s n @ [l]) (eventMap s),
       warnings := warnings s @
         (if Fin (of_nat (listenerCount s n)) = maxListeners s
          then [LeakWarning (listenerCount s (globalName s)) (globalName s)] else [])\<rparr>"
  by (cases "map_of (eventMap s) n")
     (simp_all add: addListener_step_def console_warn_def map_has_def map_get_def map_set_def
        listeners_def update_conv')



lemma list_all_update:
  "list_all P m \<Longrightarrow> P (k, v) \<Longrightarrow> list_all P (AList.update k v m)"
  by (induction m) auto

lemma list_all_delete: "list_all P m \<Longrightarrow> list_all P (AList.delete k m)"
  by (simp add: AList.delete_eq list_all_iff)

lemma registry_inv_map_set:
  "registry_inv s \<Longrightarrow> v \<noteq> [] \<Longrightarrow> registry_inv (s\<lparr>eventMap := map_set n v (eventMap s)\<rparr>)"
  by (simp add: registry_inv_def map_set_def list_all_update)

lemma registry_inv_removeAllListeners:
  "registry_inv s \<Longrightarrow> registry_inv (removeAllListeners n s)"
  by (simp add: registry_inv_def removeAllListeners_def map_delete_def list_all_delete)

lemma registry_inv_eventMap_eq: "eventMap s' = eventMap s \<Longrightarrow> registry_inv s' = registry_inv s"
  by (simp add: registry_inv_def)

lemma registry_inv_addListener_step:
  "registry_inv s \<Longrightarrow> registry_inv (addListener_step n l p s)"
  by (simp add: addListener_step_eq registry_inv_def map_set_def list_all_update)

lemma registry_inv_addListener_loop:
  "registry_inv s \<Longrightarrow> registry_inv (addListener_loop ns l p s)"
  by (induction ns arbitrary: s) (simp_all add: registry_inv_addListener_step)

lemma registry_inv_addListener:
  "registry_inv s \<Longrightarrow> registry_inv (snd (addListener names l p s))"
  by (simp add: addListener_def registry_inv_addListener_loop)

lemma registry_inv_once:
  "registry_inv s \<Longrightarrow> registry_inv (snd (once names l p s))"
proof -
  assume "registry_inv s"
  then have "registry_inv (s\<lparr>closures := Suc (closures s)\<rparr>)"
    by (simp add: registry_inv_def)
  then show ?thesis
    by (simp add: once_def Let_def registry_inv_addListener)
qed

lemma registry_inv_set_maxListeners:
  "registry_inv s \<Longrightarrow> registry_inv (snd (set_maxListeners v s))"
  by (cases v) (auto simp: set_maxListeners_def registry_inv_def)

lemma registry_inv_has:
  "registry_inv s \<Longrightarrow> map_has (eventMap s) n = (listeners s n \<noteq> [])"
  by (auto simp: registry_inv_def map_has_def listeners_def map_get_def list_all_iff
      split: option.splits dest: map_of_SomeD)


lemma forEach_inv:
  "keeps_inv k \<Longrightarrow> registry_inv s \<Longrightarrow> forEach k ls args s = Some (r, s') \<Longrightarrow> registry_inv s'"
proof (induction ls arbitrary: s)
  case Nil
  then show ?case by simp
next
  case (Cons l ls)
  from Cons.prems(3) obtain r1 s1 where a: "apply_fn k l args s = Some (r1, s1)"
    by (cases "apply_fn k l args s") auto
  with Cons.prems(1,2) have i1: "registry_inv s1"
    unfolding keeps_inv_def by blast
  show ?case
  proof (cases r1)
    case (Inl e)
    with a Cons.prems(3) i1 show ?thesis by simp
  next
    case (Inr u)
    with a Cons.prems(3) have "forEach k ls args s1 = Some (r, s')" by simp
    with Cons.IH [OF Cons.prems(1) i1] show ?thesis by simp
  qed
qed

lemma emit_inv:
  assumes "keeps_inv k" "registry_inv s" "emit k n args s = Some (r, s')"
  shows "registry_inv s'"
proof (cases "listeners s n = []")
  case True
  with assms show ?thesis by simp
next
  case False
  with assms(3) obtain r1 s1 where f: "forEach k (listeners s n) args s = Some (r1, s1)"
    by (cases "forEach k (listeners s n) args s") auto
  from forEach_inv [OF assms(1,2) f] have "registry_inv s1" .
  moreover from f False assms(3) have "s' = s1" by (cases r1) auto
  ultimately show ?thesis by simp
qed


lemma removeListener_loop_inv:
  "keeps_inv k \<Longrightarrow> registry_inv s \<Longrightarrow> removeListener_loop k ns l s = Some (r, s') \<Longrightarrow>
     registry_inv s'"
proof (induction ns arbitrary: s)
  case Nil
  then show ?case by simp
next
  case (Cons n ns)
  let ?new = "filter (\<lambda>x. x \<noteq> l) (listeners s n)"
  show ?case
  proof (cases "?new = []")
    case True
    with Cons.prems(3)
    have "removeListener_loop k ns l (removeAllListeners n s) = Some (r, s')" by simp
    with Cons.IH [OF Cons.prems(1) registry_inv_removeAllListeners [OF Cons.prems(2)]]
    show ?thesis by simp
  next
    case False
    let ?s1 = "s\<lparr>eventMap := map_set n ?new (eventMap s)\<rparr>"
    have i1: "registry_inv ?s1"
      using Cons.prems(2) False by (rule registry_inv_map_set)
    from Cons.prems(3) False obtain r2 s2
      where e: "emit k ''removeListener'' [VStr n, l] ?s1 = Some (r2, s2)"
      by (cases "emit k ''removeListener'' [VStr n, l] ?s1") (auto simp: refs_differ_def Let_def)
    from emit_inv [OF Cons.prems(1) i1 e] have i2: "registry_inv s2" .
    show ?thesis
    proof (cases r2)
      case (Inl err)
      with e False Cons.prems(3) i2 show ?thesis by (simp add: refs_differ_def Let_def)
    next
      case (Inr b)
      with e False Cons.prems(3) have "removeListener_loop k ns l s2 = Some (r, s')"
        by (simp add: refs_differ_def Let_def)
      with Cons.IH [OF Cons.prems(1) i2] show ?thesis by simp
    qed
  qed
qed

lemma removeListener_inv:
  "keeps_inv k \<Longrightarrow> registry_inv s \<Longrightarrow> removeListener k names l s = Some (r, s') \<Longrightarrow>
     registry_inv s'"
  by (cases "is_function l") (auto dest: removeListener_loop_inv)

lemma cmd_inv:
  assumes "keeps_inv k" "registry_inv s"
    and "(case c of
            AddListener names l p \<Rightarrow> Some (addListener names l p s)
          | RemoveListener names l \<Rightarrow> removeListener k names l s
          | Emit name args \<Rightarrow>
              (case emit k name args s of
                 None \<Rightarrow> None
               | Some (Inl e, s') \<Rightarrow> Some (Inl e, s')
               | Some (Inr b, s') \<Rightarrow> Some (Inr (), s'))
          | Once names l p \<Rightarrow> Some (once names l p s)
          | RemoveAllListeners name \<Rightarrow> Some (Inr (), removeAllListeners name s)
          | SetMaxListeners n \<Rightarrow> Some (set_maxListeners n s)
          | ThrowError msg \<Rightarrow> Some (Inl (Thrown msg), s)) = Some (r, s')"
  shows "registry_inv s'"
proof (cases c)
  case (AddListener names l p)
  with assms(3) have "s' = snd (addListener names l p s)" by auto
  with assms(2) show ?thesis by (simp add: registry_inv_addListener)
next
  case (RemoveListener names l)
  with assms show ?thesis by (auto dest: removeListener_inv)
next
  case (Emit name args)
  with assms(3) obtain r1 where "emit k name args s = Some (r1, s')"
    by (auto split: option.splits sum.splits prod.splits)
  from emit_inv [OF assms(1,2) this] show ?thesis .
next
  case (Once names l p)
  with assms(3) have "s' = snd (once names l p s)" by auto
  with assms(2) show ?thesis by (simp add: registry_inv_once)
next
  case (RemoveAllListeners name)
  with assms show ?thesis by (auto simp: registry_inv_removeAllListeners)
next
  case (SetMaxListeners n)
  with assms(3) have "s' = snd (set_maxListeners n s)" by auto
  with assms(2) show ?thesis by (simp add: registry_inv_set_maxListeners)
next
  case (ThrowError msg)
  with assms show ?thesis by auto
qed

lemma run_body_inv:
  "keeps_inv k \<Longrightarrow> registry_inv s \<Longrightarrow> run_body k body s = Some (r, s') \<Longrightarrow> registry_inv s'"
proof (induction body arbitrary: s)
  case Nil
  then show ?case by simp
next
  case (Cons c cs)
  let ?step = "(case c of
            AddListener names l p \<Rightarrow> Some (addListener names l p s)
          | RemoveListener names l \<Rightarrow> removeListener k names l s
          | Emit name args \<Rightarrow>
              (case emit k name args s of
                 None \<Rightarrow> None
               | Some (Inl e, s') \<Rightarrow> Some (Inl e, s')
               | Some (Inr b, s') \<Rightarrow> Some (Inr (), s'))
          | Once names l p \<Rightarrow> Some (once names l p s)
          | RemoveAllListeners name \<Rightarrow> Some (Inr (), removeAllListeners name s)
          | SetMaxListeners n \<Rightarrow> Some (set_maxListeners n s)
          | ThrowError msg \<Rightarrow> Some (Inl (Thrown msg), s))"
  from Cons.prems(3) obtain r1 s1 where st: "?step = Some (r1, s1)"
    by (cases ?step) auto
  from cmd_inv [OF Cons.prems(1,2) st] have i1: "registry_inv s1" .
  show ?case
  proof (cases r1)
    case (Inl e)
    with st Cons.prems(3) i1 show ?thesis by simp
  next
    case (Inr u)
    with st Cons.prems(3) have "run_body k cs s1 = Some (r, s')" by simp
    with Cons.IH [OF Cons.prems(1) i1] show ?thesis by simp
  qed
qed

lemma run_fn_inv:
  assumes "keeps_inv k" "registry_inv s" "run_fn k g args s = Some (r, s')"
  shows "registry_inv s'"
proof (cases g)
  case (User i body)
  with assms show ?thesis by (auto dest: run_body_inv)
next
  case (OnceListener c names l)
  with assms(3) obtain r1 s1 where a: "apply_fn k l args s = Some (r1, s1)"
    by (cases "apply_fn k l args s") auto
  with assms(1,2) have i1: "registry_inv s1"
    unfolding keeps_inv_def by blast
  show ?thesis
  proof (cases r1)
    case (Inl e)
    with a OnceListener assms(3) i1 show ?thesis by simp
  next
    case (Inr u)
    with a OnceListener assms(3)
    have "removeListener k names (VFun (OnceListener c names l)) s1 = Some (r, s')"
      by simp
    from removeListener_inv [OF assms(1) i1 this] show ?thesis .
  qed
qed

lemma keeps_inv_all: "keeps_inv k"
proof (induction k)
  case 0
  show ?case by (simp add: keeps_inv_def)
next
  case (Suc k)
  show ?case
    unfolding keeps_inv_def
  proof (intro allI impI)
    fix f args s r s'
    assume i: "registry_inv s" and a: "apply_fn (Suc k) f args s = Some (r, s')"
    show "registry_inv s'"
    proof (cases f)
      case (VFun g)
      with a obtain s1 where rf: "run_fn k g args (s\<lparr>calls := []\<rparr>) = Some (r, s1)"
        and s': "s' = s1\<lparr>calls := calls s @ [Call f args (calls s1)]\<rparr>"
        by (cases "run_fn k g args (s\<lparr>calls := []\<rparr>)") auto
      from i have "registry_inv (s\<lparr>calls := []\<rparr>)" by (simp add: registry_inv_def)
      from run_fn_inv [OF Suc this rf] have "registry_inv s1" .
      with s' show ?thesis by (simp add: registry_inv_def)
    qed (use a i in auto)
  qed
qed


lemma apply_fn_calls:
  assumes "apply_fn k f args s = Some (r, s')"
  shows "(\<exists>sub. calls s' = calls s @ [Call f args sub]) \<or>
         (\<not> is_function f \<and> s' = s \<and> (\<exists>e. r = Inl e))"
proof (cases k)
  case 0
  with assms show ?thesis by simp
next
  case (Suc j)
  show ?thesis
  proof (cases f)
    case (VFun g)
    with Suc assms show ?thesis
      by (cases "run_fn j g args (s\<lparr>calls := []\<rparr>)") auto
  qed (use Suc assms in \<open>auto simp: is_function_def\<close>)
qed

lemma forEach_calls:
  "forEach k ls args s = Some (r, s') \<Longrightarrow>
     \<exists>new. calls s' = calls s @ new \<and> length new \<le> length ls \<and>
       map call_fn new = take (length new) ls \<and> list_all (\<lambda>c. call_args c = args) new \<and>
       ((\<exists>u. r = Inr u) \<longrightarrow> length new = length ls)"
proof (induction ls arbitrary: s)
  case Nil
  then show ?case by simp
next
  case (Cons l ls)
  from Cons.prems obtain r1 s1 where a: "apply_fn k l args s = Some (r1, s1)"
    by (cases "apply_fn k l args s") auto
  show ?case
  proof (cases r1)
    case (Inl e)
    with a Cons.prems have s': "s' = s1" and r: "r = Inl e" by simp_all
    from apply_fn_calls [OF a] show ?thesis
    proof
      assume "\<exists>sub. calls s1 = calls s @ [Call l args sub]"
      then obtain sub where "calls s1 = calls s @ [Call l args sub]" ..
      with s' r show ?thesis
        by (intro exI [of _ "[Call l args sub]"]) simp
    next
      assume "\<not> is_function l \<and> s1 = s \<and> (\<exists>e. r1 = Inl e)"
      with s' r show ?thesis
        by (intro exI [of _ "[]"]) simp
    qed
  next
    case (Inr u)
    with a Cons.prems have f: "forEach k ls args s1 = Some (r, s')" by simp
    from apply_fn_calls [OF a] Inr obtain sub where c1: "calls s1 = calls s @ [Call l args sub]"
      by auto
    from Cons.IH [OF f] obtain new where n: "calls s' = calls s1 @ new"
      "length new \<le> length ls" "map call_fn new = take (length new) ls"
      "list_all (\<lambda>c. call_args c = args) new" "(\<exists>u. r = Inr u) \<longrightarrow> length new = length ls"
      by blast
    with c1 show ?thesis
      by (intro exI [of _ "Call l args sub # new"]) simp
  qed
qed

lemma emit_calls:
  assumes "emit k n args s = Some (r, s')"
  shows "\<exists>new. calls s' = calls s @ new \<and> length new \<le> length (listeners s n) \<and>
       map call_fn new = take (length new) (listeners s n) \<and>
       list_all (\<lambda>c. call_args c = args) new \<and>
       (\<forall>b. r = Inr b \<longrightarrow> length new = length (listeners s n) \<and> b = (listeners s n \<noteq> []))"
proof (cases "listeners s n = []")
  case True
  with assms show ?thesis by auto
next
  case False
  with assms obtain r1 s1 where f: "forEach k (listeners s n) args s = Some (r1, s1)"
    by (cases "forEach k (listeners s n) args s") auto
  with False assms have s': "s' = s1" and r: "r = map_sum id (\<lambda>u. True) r1"
    by (cases r1; simp)+
  from forEach_calls [OF f] obtain new where n: "calls s1 = calls s @ new"
      "length new \<le> length (listeners s n)" "map call_fn new = take (length new) (listeners s n)"
      "list_all (\<lambda>c. call_args c = args) new"
      "(\<exists>u. r1 = Inr u) \<longrightarrow> length new = length (listeners s n)"
    by blast
  show ?thesis
    using n s' r False by (intro exI [of _ new]) (cases r1; auto)
qed

lemma apply_fn_quiet:
  "quiet f \<Longrightarrow> apply_fn (Suc k) f args s = Some (Inr (), s\<lparr>calls := calls s @ [Call f args []]\<rparr>)"
  by (cases f rule: quiet.cases) simp_all

lemma forEach_quiet:
  "list_all quiet ls \<Longrightarrow>
     forEach (Suc k) ls args s =
       Some (Inr (), s\<lparr>calls := calls s @ map (\<lambda>l. Call l args []) ls\<rparr>)"
proof (induction ls arbitrary: s)
  case Nil
  then show ?case by simp
next
  case (Cons l ls)
  then show ?case by (simp add: apply_fn_quiet del: apply_fn.simps)
qed

lemma emit_quiet:
  "list_all quiet (listeners s n) \<Longrightarrow>
     emit (Suc k) n args s =
       Some (Inr (listeners s n \<noteq> []),
             s\<lparr>calls := calls s @ map (\<lambda>l. Call l args []) (listeners s n)\<rparr>)"
  by (simp add: forEach_quiet Let_def del: forEach.simps)

















section \<open>Rejected arguments\<close>

text \<open>
  C9. A listener that is not a function makes \<open>addListener\<close> and \<open>removeListener\<close>
  throw (a \<open>TypeError\<close>) before the loop over the names: the state is the one before the
  call, whatever it holds, and \<open>removeListener\<close> answers so at every depth bound.
\<close>

theorem non_callable_listener_rejected:
  "\<not> is_function v \<Longrightarrow>
     addListener names v prepend s = (Inl (TypeError ''listener must be a function''), s) \<and>
     removeListener k names v s = Some (Inl (TypeError ''listener must be a function''), s)"
  by (simp add: addListener_def)

theorem non_callable_listener_rejected_witness:
  "\<not> is_function VUndefined \<and>
   addListener ''a b'' VUndefined False (new_EventEmitter []) =
     (Inl (TypeError ''listener must be a function''), new_EventEmitter []) \<and>
   removeListener 0 ''a b'' VUndefined (new_EventEmitter []) =
     Some (Inl (TypeError ''listener must be a function''), new_EventEmitter []) \<and>
   \<not> is_function (VStr ''cb'') \<and>
   addListener ''x y'' (VStr ''cb'') True ex_two =
     (Inl (TypeError ''listener must be a function''), ex_two) \<and>
   removeListener 3 ''x y'' (VStr ''cb'') ex_two =
     Some (Inl (TypeError ''listener must be a function''), ex_two)"
  using non_callable_listener_rejected [of VUndefined "''a b''" False "new_EventEmitter []" 0]
    non_callable_listener_rejected [of "VStr ''cb''" "''x y''" True ex_two 3]
  by (simp add: is_function_def)

section \<open>The setter of \<open>maxListeners\<close>\<close>

text \<open>
  C2, as the claim states it, fails at positive infinity: it is a number and not \<open>NaN\<close>,
  it is not negative and not \<open>0\<close>, so the setter stores it and throws nothing.
\<close>

theorem set_maxListeners_accepts_infinity:
  "set_maxListeners (VNum PosInf) (new_EventEmitter []) =
     (Inr (), (new_EventEmitter [])\<lparr>maxListeners := PosInf\<rparr>) \<and>
   (\<forall>msg. fst (set_maxListeners (VNum PosInf) (new_EventEmitter [])) \<noteq> Inl (TypeError msg))"
  by (simp add: set_maxListeners_def)

text \<open>
  C2, amended. A value that is not a number, or is \<open>NaN\<close>, is refused with a
  \<open>TypeError\<close>; a negative number (negative infinity included) with a \<open>RangeError\<close>;
  both leave the state as it was. \<open>0\<close> stores positive infinity; every other number that is
  not negative, positive infinity included, is stored as it is.
\<close>

theorem set_maxListeners_cases:
  "(((\<forall>x. v \<noteq> VNum x) \<or> v = VNum NaN) \<longrightarrow>
      set_maxListeners v s = (Inl (TypeError ''maxListeners must be a number.''), s)) \<and>
   (lt_zero x \<longrightarrow>
      set_maxListeners (VNum x) s =
        (Inl (RangeError ''maxListeners cannot be set to a negative value.''), s)) \<and>
   set_maxListeners (VNum (Fin 0)) s = (Inr (), s\<lparr>maxListeners := PosInf\<rparr>) \<and>
   (0 < q \<longrightarrow> set_maxListeners (VNum (Fin q)) s = (Inr (), s\<lparr>maxListeners := Fin q\<rparr>)) \<and>
   set_maxListeners (VNum PosInf) s = (Inr (), s\<lparr>maxListeners := PosInf\<rparr>)"
  by (cases v; cases x) (auto simp: set_maxListeners_def)

theorem set_maxListeners_cases_witness:
  "set_maxListeners (VStr ''3'') (new_EventEmitter []) =
     (Inl (TypeError ''maxListeners must be a number.''), new_EventEmitter []) \<and>
   lt_zero (Fin (- 1)) \<and>
   set_maxListeners (VNum (Fin (- 1))) (new_EventEmitter []) =
     (Inl (RangeError ''maxListeners cannot be set to a negative value.''), new_EventEmitter []) \<and>
   maxListeners (snd (set_maxListeners (VNum (Fin 0)) (new_EventEmitter []))) = PosInf \<and>
   maxListeners (snd (set_maxListeners (VNum (Fin (3 / 2))) (new_EventEmitter []))) = Fin (3 / 2)"
  using set_maxListeners_cases [of "VStr ''3''" "new_EventEmitter []" "Fin (- 1)" "3 / 2"]
  by simp

section \<open>The invariant of the map\<close>

text \<open>
  C6. The new emitter has no entry, and every operation keeps the invariant that no entry
  holds an empty array, whatever the listeners it calls do (and whether they return or
  throw); under it the map has an entry for a name exactly when \<open>listeners\<close> is not
  empty there.
\<close>

theorem registry_inv_preserved:
  "registry_inv (new_EventEmitter g) \<and>
   (registry_inv s \<longrightarrow>
      registry_inv (snd (addListener names l p s)) \<and>
      registry_inv (snd (once names l p s)) \<and>
      registry_inv (removeAllListeners n s) \<and>
      (\<forall>r s'. removeListener k names l s = Some (r, s') \<longrightarrow> registry_inv s') \<and>
      (\<forall>r s'. emit k n args s = Some (r, s') \<longrightarrow> registry_inv s') \<and>
      (\<forall>m. map_has (eventMap s) m = (listeners s m \<noteq> [])))"
proof (intro conjI impI allI)
  show "registry_inv (new_EventEmitter g)"
    by (simp add: registry_inv_def new_EventEmitter_def)
next
  assume "registry_inv s"
  then show "registry_inv (snd (addListener names l p s))"
    by (rule registry_inv_addListener)
next
  assume "registry_inv s"
  then show "registry_inv (snd (once names l p s))"
    by (rule registry_inv_once)
next
  assume "registry_inv s"
  then show "registry_inv (removeAllListeners n s)"
    by (rule registry_inv_removeAllListeners)
next
  fix r s'
  assume "registry_inv s" and "removeListener k names l s = Some (r, s')"
  with keeps_inv_all show "registry_inv s'"
    by (rule removeListener_inv)
next
  fix r s'
  assume "registry_inv s" and "emit k n args s = Some (r, s')"
  with keeps_inv_all show "registry_inv s'"
    by (rule emit_inv)
next
  fix m
  assume "registry_inv s"
  then show "map_has (eventMap s) m = (listeners s m \<noteq> [])"
    by (rule registry_inv_has)
qed

theorem registry_inv_preserved_witness:
  "registry_inv ex_one \<and>
   registry_inv (snd (addListener ''x y'' ex_g True ex_one)) \<and>
   registry_inv (snd (once ''x y'' ex_g True ex_one)) \<and>
   registry_inv (removeAllListeners ''x'' ex_one) \<and>
   removeListener 1 ''x y'' ex_g ex_one = Some (Inr (), ex_one\<lparr>calls := []\<rparr>) \<and>
   registry_inv (ex_one\<lparr>calls := []\<rparr>) \<and>
   emit 1 ''x'' [] ex_one = Some (Inr True, ex_one\<lparr>calls := [Call ex_f [] []]\<rparr>) \<and>
   registry_inv (ex_one\<lparr>calls := [Call ex_f [] []]\<rparr>) \<and>
   map_has (eventMap ex_one) ''x'' = (listeners ex_one ''x'' \<noteq> [])"
proof -
  have i: "registry_inv ex_one" by code_simp
  have r: "removeListener 1 ''x y'' ex_g ex_one = Some (Inr (), ex_one\<lparr>calls := []\<rparr>)"
    by code_simp
  have e: "emit 1 ''x'' [] ex_one = Some (Inr True, ex_one\<lparr>calls := [Call ex_f [] []]\<rparr>)"
    by code_simp
  note t = registry_inv_preserved [of "[]" ex_one "''x y''" ex_g True "''x''" 1 "[]",
      THEN conjunct2, THEN mp, OF i]
  from t have a: "registry_inv (snd (addListener ''x y'' ex_g True ex_one))"
    by (rule conjunct1)
  from t have b: "registry_inv (snd (once ''x y'' ex_g True ex_one))"
    by (elim conjE)
  from t have c: "registry_inv (removeAllListeners ''x'' ex_one)"
    by (elim conjE)
  from t have "\<forall>r s'. removeListener 1 ''x y'' ex_g ex_one = Some (r, s') \<longrightarrow> registry_inv s'"
    by (elim conjE)
  with r have d: "registry_inv (ex_one\<lparr>calls := []\<rparr>)"
    by (elim allE impE)
  from t have "\<forall>r s'. emit 1 ''x'' [] ex_one = Some (r, s') \<longrightarrow> registry_inv s'"
    by (elim conjE)
  with e have f: "registry_inv (ex_one\<lparr>calls := [Call ex_f [] []]\<rparr>)"
    by (elim allE impE)
  from t have h: "map_has (eventMap ex_one) ''x'' = (listeners ex_one ''x'' \<noteq> [])"
    by (elim conjE allE)
  from i a b c r d e f h show ?thesis by (intro conjI)
qed

section \<open>Emission\<close>

text \<open>
  C3. With no listener registered for \<open>n\<close>, \<open>emit\<close> returns \<open>false\<close> and leaves the
  state, the record of applications included, as it was, at every depth bound. With
  listeners registered, an emission that returns has returned \<open>true\<close> and has applied, at
  its own level, exactly the listeners of \<open>n\<close>, once each and in their order, each to
  \<open>args\<close>; and it does return when the listeners are quiet functions.
\<close>

theorem emit_invokes_registered_listeners:
  "(listeners s n = [] \<longrightarrow> emit k n args s = Some (Inr False, s)) \<and>
   (listeners s n \<noteq> [] \<longrightarrow>
      (\<forall>b s'. emit k n args s = Some (Inr b, s') \<longrightarrow>
         b \<and> (\<exists>new. calls s' = calls s @ new \<and> map call_fn new = listeners s n \<and>
                list_all (\<lambda>c. call_args c = args) new)) \<and>
      (list_all quiet (listeners s n) \<longrightarrow>
         emit (Suc k) n args s =
           Some (Inr True, s\<lparr>calls := calls s @ map (\<lambda>l. Call l args []) (listeners s n)\<rparr>)))"
proof (intro conjI impI allI)
  assume "listeners s n = []"
  then show "emit k n args s = Some (Inr False, s)" by simp
next
  fix b s'
  assume ne: "listeners s n \<noteq> []" and e: "emit k n args s = Some (Inr b, s')"
  from emit_calls [OF e] obtain new where n: "calls s' = calls s @ new"
    "map call_fn new = take (length new) (listeners s n)"
    "list_all (\<lambda>c. call_args c = args) new"
    "length new = length (listeners s n)" "b = (listeners s n \<noteq> [])"
    by blast
  from n(5) ne show b by simp
  from n(1-4) show "\<exists>new. calls s' = calls s @ new \<and> map call_fn new = listeners s n \<and>
                list_all (\<lambda>c. call_args c = args) new"
    by (intro exI [of _ new]) simp
next
  assume "listeners s n \<noteq> []" and "list_all quiet (listeners s n)"
  then show "emit (Suc k) n args s =
           Some (Inr True, s\<lparr>calls := calls s @ map (\<lambda>l. Call l args []) (listeners s n)\<rparr>)"
    by (simp add: emit_quiet del: emit.simps)
qed

theorem emit_invokes_registered_listeners_witness:
  "listeners ex_two ''y'' = [] \<and>
   emit 0 ''y'' [VNum (Fin 1), VNum (Fin 2)] ex_two = Some (Inr False, ex_two) \<and>
   listeners ex_two ''x'' = [ex_f, ex_g] \<and>
   list_all quiet (listeners ex_two ''x'') \<and>
   emit 1 ''x'' [VNum (Fin 1), VNum (Fin 2)] ex_two =
     Some (Inr True, ex_two\<lparr>calls := calls ex_two @
        map (\<lambda>l. Call l [VNum (Fin 1), VNum (Fin 2)] []) (listeners ex_two ''x'')\<rparr>) \<and>
   (\<exists>new. calls (ex_two\<lparr>calls := calls ex_two @
               map (\<lambda>l. Call l [VNum (Fin 1), VNum (Fin 2)] []) (listeners ex_two ''x'')\<rparr>) =
            calls ex_two @ new \<and>
          map call_fn new = listeners ex_two ''x'' \<and>
          list_all (\<lambda>c. call_args c = [VNum (Fin 1), VNum (Fin 2)]) new)"
proof -
  let ?args = "[VNum (Fin 1), VNum (Fin 2)]"
  let ?s' = "ex_two\<lparr>calls := calls ex_two @ map (\<lambda>l. Call l ?args []) (listeners ex_two ''x'')\<rparr>"
  have y: "listeners ex_two ''y'' = []" by code_simp
  have x: "listeners ex_two ''x'' = [ex_f, ex_g]" by code_simp
  then have ne: "listeners ex_two ''x'' \<noteq> []" by simp
  have q: "list_all quiet (listeners ex_two ''x'')" by code_simp
  from emit_invokes_registered_listeners [of ex_two "''y''" 0 ?args, THEN conjunct1] y
  have a: "emit 0 ''y'' ?args ex_two = Some (Inr False, ex_two)" by (rule mp)
  note t = emit_invokes_registered_listeners [of ex_two "''x''" _ ?args, THEN conjunct2, THEN mp, OF ne]
  from t [of 0, THEN conjunct2] q
  have b: "emit 1 ''x'' ?args ex_two = Some (Inr True, ?s')"
    unfolding One_nat_def by (rule mp)
  from t [of 1, THEN conjunct1] b
  have d: "\<exists>new. calls ?s' = calls ex_two @ new \<and>
          map call_fn new = listeners ex_two ''x'' \<and>
          list_all (\<lambda>c. call_args c = ?args) new"
    by blast
  from y a x q b d show ?thesis by (intro conjI)
qed



section \<open>Removal\<close>

text \<open>
  C1 does not hold of the code. \<open>ex_meta\<close> is the emitter after \<open>on('x', f)\<close> and
  \<open>on('removeListener', h)\<close>. Removing from \<open>x\<close> a function \<open>g\<close> that was never
  registered there leaves the listeners of \<open>x\<close> as they were, and still applies \<open>h\<close> to
  \<open>('x', g)\<close>: the test \<open>currentListeners !== newListeners\<close> compares two arrays
  allocated apart, so the meta-event is emitted whenever the filtered array is not empty.
\<close>

theorem removeListener_absent_listener_emits:
  "listeners ex_meta ''x'' = [ex_f] \<and> ex_g \<notin> set (listeners ex_meta ''x'') \<and>
   listeners ex_meta ''removeListener'' = [ex_h] \<and> calls ex_meta = [] \<and>
   removeListener 1 ''x'' ex_g ex_meta =
     Some (Inr (), ex_meta\<lparr>calls := [Call ex_h [VStr ''x'', ex_g] []]\<rparr>)"
  by code_simp



section \<open>The empty event name\<close>



section \<open>Adding, then removing\<close>





section \<open>Listeners registered with \<open>once\<close>\<close>




end
